theory Spec2Isabelle
  imports Main "HOL-Library.Multiset"
begin

section \<open>JavaScript values used by the two modules\<close>

text \<open>
  Numbers. The inputs are taken to be integers: heights, ball count and repetitions.
  Numbers are modelled as \<open>int\<close>. JavaScript computes in doubles, which are exact on the
  safe integers, up to \<open>2^53 - 1\<close>; beyond them a sum such as \<open>beat + throwValue\<close> rounds
  and the model no longer gives the code's value. The heights of an accepted pattern are
  at most 35; for arbitrary heights, the properties that depend on the value of
  \<open>beat + throwValue\<close> are stated under \<open>safe_integers\<close>, which keeps every beat and every
  landing beat a safe integer. The one non-integer a run on integers can produce is
  \<open>NaN\<close>, from \<open>beat % balls\<close> with \<open>balls = 0\<close>; a ball identifier is therefore a \<open>jsnum\<close>. The quotient \<open>sum / period\<close> is an integer exactly when
  \<open>period\<close> divides \<open>sum\<close>, so \<open>Number.isInteger(balls)\<close> is modelled as \<open>sum mod period = 0\<close>
  and \<open>balls\<close> as \<open>sum div period\<close>.

  Strings. A string is a list of characters; the model covers the strings whose code
  units are below 256, which is what \<open>char\<close> holds. Below 256, \<open>toLowerCase\<close> maps
  \<open>A\<close>-\<open>Z\<close> and the capital letters of Latin-1 to their small letters, and the class \<open>\s\<close>
  holds the code units 9 to 13, 32 and 160.

  Exceptions. A \<open>throw\<close> is the value \<open>Inl\<close> of the error with its message;
  \<open>SiteswapError\<close> is the validator's class, \<open>Error\<close> the planner's.
\<close>

datatype jsnum = Num int | NaN

definition js_rem :: "int \<Rightarrow> int \<Rightarrow> int" where
  \<comment> \<open>The \<open>%\<close> operator for a non-zero divisor: the result has the sign of the dividend.\<close>
  "js_rem a b = sgn a * (\<bar>a\<bar> mod \<bar>b\<bar>)"

definition js_rem_num :: "int \<Rightarrow> int \<Rightarrow> jsnum" where
  \<comment> \<open>The \<open>%\<close> operator where the divisor may be zero.\<close>
  "js_rem_num a b = (if b = 0 then NaN else Num (js_rem a b))"

definition digit_char :: "nat \<Rightarrow> char" where
  "digit_char d = char_of (48 + d)"

fun show_nat :: "nat \<Rightarrow> string" where
  "show_nat n = (if n < 10 then [digit_char n] else show_nat (n div 10) @ [digit_char (n mod 10)])"

definition show_int :: "int \<Rightarrow> string" where
  "show_int i = (if i < 0 then CHR ''-'' # show_nat (nat (- i)) else show_nat (nat i))"

fun show_jsnum :: "jsnum \<Rightarrow> string" where
  "show_jsnum (Num i) = show_int i"
| "show_jsnum NaN = ''NaN''"

definition toLowerCase_char :: "char \<Rightarrow> char" where
  "toLowerCase_char c =
     (let n = (of_char c :: nat)
      in if (65 \<le> n \<and> n \<le> 90) \<or> (192 \<le> n \<and> n \<le> 222 \<and> n \<noteq> 215) then char_of (n + 32) else c)"

definition toLowerCase :: "string \<Rightarrow> string" where
  "toLowerCase s = map toLowerCase_char s"

definition is_whitespace :: "char \<Rightarrow> bool" where
  \<comment> \<open>The class \<open>\s\<close> of a regular expression, below 256.\<close>
  "is_whitespace c = (let n = (of_char c :: nat) in (9 \<le> n \<and> n \<le> 13) \<or> n = 32 \<or> n = 160)"

fun indexOf :: "string \<Rightarrow> char \<Rightarrow> int" where
  "indexOf [] c = - 1"
| "indexOf (x # xs) c =
     (if x = c then 0 else (let i = indexOf xs c in if i = - 1 then - 1 else i + 1))"

datatype error = SiteswapError string | Error string

section \<open>siteswap.ts: parseSiteswap\<close>

definition CHAR_MAP :: string where
  "CHAR_MAP = ''0123456789abcdefghijklmnopqrstuvwxyz''"

record SiteswapData =
  pattern :: "int list"
  period :: int
  balls :: int
  maxThrow :: int

fun parse_chars :: "string \<Rightarrow> error + int list" where
  \<comment> \<open>The \<open>for (const char of cleaned)\<close> loop: the first character outside the alphabet throws.\<close>
  "parse_chars [] = Inr []"
| "parse_chars (c # cs) =
     (let v = indexOf CHAR_MAP c
      in if v = - 1
         then Inl (SiteswapError (''Unsupported character '' @ [CHR 0x22, c, CHR 0x22]
                                   @ ''. Use 0-9 or a-z for throws.''))
         else (case parse_chars cs of Inl e \<Rightarrow> Inl e | Inr vs \<Rightarrow> Inr (v # vs)))"

fun check_landings :: "int \<Rightarrow> int list \<Rightarrow> int \<Rightarrow> int set \<Rightarrow> error + int set" where
  \<comment> \<open>The \<open>pattern.forEach((value, index) => ...)\<close> loop over the rest of the pattern,
      \<open>index\<close> being the index of its head and \<open>landings\<close> the set built so far.\<close>
  "check_landings p [] index landings = Inr landings"
| "check_landings p (v # rest) index landings =
     (if v = 0 then check_landings p rest (index + 1) landings
      else (let landing = js_rem (index + v) p
            in if landing \<in> landings
               then Inl (SiteswapError ''Two balls collide in the same beat (invalid pattern).'')
               else check_landings p rest (index + 1) (insert landing landings)))"

definition cleaned_input :: "string \<Rightarrow> string" where
  \<comment> \<open>\<open>rawInput.toLowerCase().replace(/\s+/g, "")\<close>\<close>
  "cleaned_input rawInput = filter (\<lambda>c. \<not> is_whitespace c) (toLowerCase rawInput)"

fun first_collision :: "int \<Rightarrow> int list \<Rightarrow> int \<Rightarrow> int set \<Rightarrow> int option" where
  \<comment> \<open>The value of the local \<open>landing\<close> at which the loop of \<open>check_landings\<close> throws,
      if it throws: the same traversal, returning that value instead of the error.\<close>
  "first_collision p [] index landings = None"
| "first_collision p (v # rest) index landings =
     (if v = 0 then first_collision p rest (index + 1) landings
      else (let landing = js_rem (index + v) p
            in if landing \<in> landings then Some landing
               else first_collision p rest (index + 1) (insert landing landings)))"

definition parseSiteswap :: "string \<Rightarrow> error + SiteswapData" where
  "parseSiteswap rawInput =
     (let cleaned = cleaned_input rawInput
      in if cleaned = [] then Inl (SiteswapError ''Enter at least one throw height.'')
         else (case parse_chars cleaned of
                 Inl e \<Rightarrow> Inl e
               | Inr pat \<Rightarrow>
                   if list_all (\<lambda>v. v = 0) pat
                   then Inl (SiteswapError ''Pattern cannot be all zeros.'')
                   else (let period = int (length pat);
                             sum = foldl (\<lambda>acc v. acc + v) 0 pat
                         in if sum mod period \<noteq> 0
                            then Inl (SiteswapError
                                   ''Average throw height must be an integer (invalid pattern).'')
                            else (let balls = sum div period
                                  in (case check_landings period pat 0 {} of
                                        Inl e \<Rightarrow> Inl e
                                      | Inr landings \<Rightarrow>
                                          if balls < 1
                                          then Inl (SiteswapError
                                                 ''Pattern must include at least one ball.'')
                                          else Inr \<lparr>pattern = pat, period = period,
                                                    balls = balls,
                                                    maxThrow = Max (set pat)\<rparr>)))))"

section \<open>simulation.ts: buildSimulationPlan\<close>

datatype Hand = Left | Right

record Flight =
  id_str :: string
  ballId :: jsnum
  throwValue :: int
  startBeat :: int
  endBeat :: int
  fromHand :: Hand
  toHand :: Hand

record SimulationPlan =
  flights :: "Flight list"
  beats :: int

record planner_state =
  catchAssignments :: "int \<rightharpoonup> jsnum"
  nextBallId :: int
  flights_acc :: "Flight list"

datatype id_source = Consumed | Introduced | Fallback

definition id_source_at :: "int \<Rightarrow> planner_state \<Rightarrow> int \<Rightarrow> id_source" where
  \<comment> \<open>Which of the three branches of the ball-identity resolution runs at \<open>beat\<close>.\<close>
  "id_source_at nballs st beat =
     (if catchAssignments st beat \<noteq> None then Consumed
      else if nextBallId st < nballs then Introduced
      else Fallback)"

definition throw_at :: "int list \<Rightarrow> int \<Rightarrow> int" where
  \<comment> \<open>\<open>pattern[beat % period]\<close>; the index is in range whenever the loop body runs.\<close>
  "throw_at pat beat = pat ! nat (js_rem beat (int (length pat)))"

definition resolve_ballId :: "int \<Rightarrow> planner_state \<Rightarrow> int \<Rightarrow> jsnum \<times> (int \<rightharpoonup> jsnum) \<times> int" where
  \<comment> \<open>The \<open>if (catchAssignments.has(beat)) ... else ...\<close> block: the ball identifier, the
      table and the counter \<open>nextBallId\<close> after it.\<close>
  "resolve_ballId nballs st beat =
     (case id_source_at nballs st beat of
        Consumed \<Rightarrow> (the (catchAssignments st beat),
                      (catchAssignments st)(beat := None), nextBallId st)
      | Introduced \<Rightarrow> (Num (nextBallId st), catchAssignments st, nextBallId st + 1)
      | Fallback \<Rightarrow> (js_rem_num beat nballs, catchAssignments st, nextBallId st))"

definition plan_step :: "int list \<Rightarrow> int \<Rightarrow> planner_state \<Rightarrow> int \<Rightarrow> error + planner_state" where
  \<comment> \<open>One iteration of the \<open>for\<close> loop.\<close>
  "plan_step pat nballs st beat =
     (let throwValue = throw_at pat beat;
          fromHand = (if js_rem beat 2 = 0 then Left else Right);
          toHand = (if js_rem (beat + throwValue) 2 = 0 then Left else Right);
          (ballId, assignments, nextId) = resolve_ballId nballs st beat
      in if throwValue > 0
         then (let landingBeat = beat + throwValue
               in if assignments landingBeat \<noteq> None
                  then Inl (Error ''Landing conflict detected while building flight plan.'')
                  else Inr \<lparr>catchAssignments = assignments(landingBeat \<mapsto> ballId),
                            nextBallId = nextId,
                            flights_acc = flights_acc st @
                              [\<lparr>id_str = show_jsnum ballId @ ''-'' @ show_int beat,
                                ballId = ballId, throwValue = throwValue,
                                startBeat = beat, endBeat = landingBeat,
                                fromHand = fromHand, toHand = toHand\<rparr>]\<rparr>)
         else Inr \<lparr>catchAssignments = assignments, nextBallId = nextId,
                   flights_acc = flights_acc st\<rparr>)"

definition initial_state :: planner_state where
  "initial_state = \<lparr>catchAssignments = Map.empty, nextBallId = 0, flights_acc = []\<rparr>"

function beat_loop ::
  "int list \<Rightarrow> int \<Rightarrow> int \<Rightarrow> int \<Rightarrow> planner_state \<Rightarrow> error + planner_state" where
  \<comment> \<open>\<open>for (let beat = ...; beat < totalBeats; beat++)\<close>, from \<open>beat\<close> on in state \<open>st\<close>;
      an iteration that throws ends the loop.\<close>
  "beat_loop pat nballs totalBeats beat st =
     (if beat < totalBeats
      then (case plan_step pat nballs st beat of
              Inl e \<Rightarrow> Inl e
            | Inr st' \<Rightarrow> beat_loop pat nballs totalBeats (beat + 1) st')
      else Inr st)"
  by pat_completeness auto
termination
  by (relation "measure (\<lambda>(pat, nballs, totalBeats, beat, st). nat (totalBeats - beat))") auto

definition totalBeats_of :: "int list \<Rightarrow> int option \<Rightarrow> int" where
  \<comment> \<open>\<open>Math.max(loops * period, period)\<close>; \<open>loops\<close> is \<open>None\<close> when the argument is omitted,
      and then defaults to 6.\<close>
  "totalBeats_of pat loops =
     (let period = int (length pat);
          l = (case loops of None \<Rightarrow> 6 | Some n \<Rightarrow> n)
      in max (l * period) period)"

definition buildSimulationPlan :: "int list \<Rightarrow> int \<Rightarrow> int option \<Rightarrow> error + SimulationPlan" where
  "buildSimulationPlan pat nballs loops =
     (let totalBeats = totalBeats_of pat loops
      in (case beat_loop pat nballs totalBeats 0 initial_state of
            Inl e \<Rightarrow> Inl e
          | Inr st \<Rightarrow> Inr \<lparr>flights = flights_acc st, beats = totalBeats\<rparr>))"

section \<open>Notions used to state the properties\<close>

primrec run_beats :: "int list \<Rightarrow> int \<Rightarrow> nat \<Rightarrow> error + planner_state" where
  \<comment> \<open>The state in which the loop reaches beat \<open>k\<close>, that is after the iterations for the
      beats \<open>0, ..., k - 1\<close>, or the error one of them throws.\<close>
  "run_beats pat nballs 0 = Inr initial_state"
| "run_beats pat nballs (Suc k) =
     (case run_beats pat nballs k of
        Inl e \<Rightarrow> Inl e
      | Inr st \<Rightarrow> plan_step pat nballs st (int k))"

definition MAX_SAFE_INTEGER :: int where
  \<comment> \<open>\<open>Number.MAX_SAFE_INTEGER\<close>: up to it, sums and products of integers are exact.\<close>
  "MAX_SAFE_INTEGER = 2 ^ 53 - 1"

definition safe_integers :: "int list \<Rightarrow> int option \<Rightarrow> bool" where
  \<comment> \<open>Every height, every beat below \<open>totalBeats\<close> and every \<open>beat + throwValue\<close> of the
      run is a safe integer, in absolute value.\<close>
  "safe_integers pat loops \<longleftrightarrow>
     (\<forall>v \<in> set pat. \<bar>v\<bar> + totalBeats_of pat loops \<le> MAX_SAFE_INTEGER)"

definition emitted :: "int list \<Rightarrow> jsnum \<Rightarrow> int \<Rightarrow> Flight" where
  \<comment> \<open>The record that the loop body pushes at \<open>beat\<close> when the resolved identifier is \<open>bid\<close>.\<close>
  "emitted pat bid beat =
     \<lparr>id_str = show_jsnum bid @ ''-'' @ show_int beat, ballId = bid,
      throwValue = throw_at pat beat, startBeat = beat, endBeat = beat + throw_at pat beat,
      fromHand = (if js_rem beat 2 = 0 then Left else Right),
      toHand = (if js_rem (beat + throw_at pat beat) 2 = 0 then Left else Right)\<rparr>"

fun valid_id :: "int \<Rightarrow> jsnum \<Rightarrow> bool" where
  \<comment> \<open>An identifier of the pool \<open>0, ..., nballs - 1\<close>.\<close>
  "valid_id n (Num i) = (0 \<le> i \<and> i < n)"
| "valid_id n NaN = False"

definition ids_ok :: "int \<Rightarrow> planner_state \<Rightarrow> bool" where
  "ids_ok n st \<longleftrightarrow>
     0 \<le> nextBallId st \<and> (\<forall>j v. catchAssignments st j = Some v \<longrightarrow> valid_id n v)"

definition landing_slot :: "int list \<Rightarrow> nat \<Rightarrow> int" where
  \<comment> \<open>\<open>(index + value) % period\<close> for the throw at index \<open>i\<close> of the pattern.\<close>
  "landing_slot pat i = js_rem (int i + pat ! i) (int (length pat))"

definition slots_distinct :: "int list \<Rightarrow> bool" where
  \<comment> \<open>What the loop of \<open>check_landings\<close> establishes when it does not throw.\<close>
  "slots_distinct pat \<longleftrightarrow>
     (\<forall>i<length pat. \<forall>j<length pat.
        i \<noteq> j \<and> pat ! i \<noteq> 0 \<and> pat ! j \<noteq> 0 \<longrightarrow> landing_slot pat i \<noteq> landing_slot pat j)"

definition pending_ok :: "int list \<Rightarrow> nat \<Rightarrow> planner_state \<Rightarrow> bool" where
  \<comment> \<open>Before beat \<open>k\<close>, every entry of the table is the landing beat of an earlier throw.\<close>
  "pending_ok pat k st \<longleftrightarrow>
     (\<forall>j. catchAssignments st j \<noteq> None \<longrightarrow>
        (\<exists>b. 0 \<le> b \<and> b < int k \<and> 0 < throw_at pat b \<and> j = b + throw_at pat b))"

definition zero_free :: "int list \<Rightarrow> bool" where
  "zero_free pat \<longleftrightarrow> pat \<noteq> [] \<and> (\<forall>v \<in> set pat. 0 < v)"

definition land :: "int list \<Rightarrow> nat \<Rightarrow> nat" where
  \<comment> \<open>The landing beat of the throw made at beat \<open>b\<close>.\<close>
  "land pat b = b + nat (throw_at pat (int b))"

definition air :: "int list \<Rightarrow> nat \<Rightarrow> nat set" where
  \<comment> \<open>The throws made before beat \<open>k\<close> that have not landed before beat \<open>k\<close>.\<close>
  "air pat k = {b. b < k \<and> k \<le> land pat b}"

definition intro_ok :: "int list \<Rightarrow> nat \<Rightarrow> planner_state \<Rightarrow> bool" where
  \<comment> \<open>Before beat \<open>k\<close>, every throw still in the air has its entry in the table, and no
      more identifiers have been introduced than there are throws in the air.\<close>
  "intro_ok pat k st \<longleftrightarrow>
     (\<forall>b<k. k \<le> land pat b \<longrightarrow> catchAssignments st (int (land pat b)) \<noteq> None)
     \<and> nextBallId st \<le> int (card (air pat k))"

section \<open>Arithmetic of the remainder operator\<close>

lemma js_rem_nonneg: "0 \<le> a \<Longrightarrow> 0 < b \<Longrightarrow> js_rem a b = a mod b"
  by (cases "a = 0") (simp_all add: js_rem_def)

lemma js_rem_2_iff: "js_rem a 2 = 0 \<longleftrightarrow> even a"
  by (auto simp: js_rem_def sgn_if even_iff_mod_2_eq_zero)

lemma throw_at_eq:
  "pat \<noteq> [] \<Longrightarrow> 0 \<le> b \<Longrightarrow> throw_at pat b = pat ! nat (b mod int (length pat))"
  by (simp add: throw_at_def js_rem_nonneg)

lemma js_rem_num_valid: "1 \<le> n \<Longrightarrow> 0 \<le> b \<Longrightarrow> valid_id n (js_rem_num b n)"
  by (simp add: js_rem_num_def js_rem_nonneg)

section \<open>The flights a run emits\<close>

lemma plan_step_flights:
  assumes "plan_step pat n st beat = Inr st'"
  shows "flights_acc st' = flights_acc st @
           (if throw_at pat beat > 0 then [emitted pat (fst (resolve_ballId n st beat)) beat]
            else [])"
  using assms
  by (auto simp: plan_step_def Let_def emitted_def split: if_splits prod.splits)

lemma run_beats_Suc_Inr:
  assumes "run_beats pat n (Suc k) = Inr st"
  obtains st0 where "run_beats pat n k = Inr st0" and "plan_step pat n st0 (int k) = Inr st"
  using assms by (auto split: sum.splits)

lemma run_beats_flights:
  "run_beats pat n k = Inr st \<Longrightarrow>
     \<forall>f \<in> set (flights_acc st).
        \<exists>b bid. 0 \<le> b \<and> b < int k \<and> 0 < throw_at pat b \<and> f = emitted pat bid b"
proof (induction k arbitrary: st)
  case 0
  then show ?case by (auto simp: initial_state_def)
next
  case (Suc k)
  from Suc.prems obtain st0
    where r: "run_beats pat n k = Inr st0" and s: "plan_step pat n st0 (int k) = Inr st"
    by (rule run_beats_Suc_Inr)
  have ih: "\<forall>f \<in> set (flights_acc st0).
              \<exists>b bid. 0 \<le> b \<and> b < int k \<and> 0 < throw_at pat b \<and> f = emitted pat bid b"
    using Suc.IH [OF r] .
  show ?case
  proof
    fix f assume "f \<in> set (flights_acc st)"
    then consider "f \<in> set (flights_acc st0)"
      | "0 < throw_at pat (int k)" "f = emitted pat (fst (resolve_ballId n st0 (int k))) (int k)"
      using plan_step_flights [OF s] by (auto split: if_splits)
    then show "\<exists>b bid. 0 \<le> b \<and> b < int (Suc k) \<and> 0 < throw_at pat b \<and> f = emitted pat bid b"
    proof cases
      case 1
      with ih obtain b bid
        where "0 \<le> b" "b < int k" "0 < throw_at pat b" "f = emitted pat bid b"
        by blast
      then show ?thesis by (intro exI [of _ b] exI [of _ bid]) simp
    next
      case 2
      then show ?thesis
        by (intro exI [of _ "int k"] exI [of _ "fst (resolve_ballId n st0 (int k))"]) simp
    qed
  qed
qed

lemma run_beats_startBeats:
  "run_beats pat n k = Inr st \<Longrightarrow>
     map startBeat (flights_acc st) = map int (filter (\<lambda>b. 0 < throw_at pat (int b)) [0..<k])"
proof (induction k arbitrary: st)
  case 0
  then show ?case by (auto simp: initial_state_def)
next
  case (Suc k)
  from Suc.prems obtain st0
    where r: "run_beats pat n k = Inr st0" and s: "plan_step pat n st0 (int k) = Inr st"
    by (rule run_beats_Suc_Inr)
  show ?case
    using Suc.IH [OF r] plan_step_flights [OF s] by (simp add: emitted_def)
qed

lemma run_beats_Inl:
  "run_beats pat n k = Inl e \<Longrightarrow> run_beats pat n (k + m) = Inl e"
  by (induction m) simp_all

lemma beat_loop_run_beats:
  "run_beats pat n k = Inr st \<Longrightarrow> int k \<le> T \<Longrightarrow>
     beat_loop pat n T (int k) st = run_beats pat n (nat T)"
proof (induction "nat T - k" arbitrary: k st)
  case 0
  then have "nat T = k" "\<not> int k < T" by simp_all
  with "0.prems"(1) show ?case by simp
next
  case (Suc d)
  then have lt: "int k < T" by simp
  show ?case
  proof (cases "plan_step pat n st (int k)")
    case (Inl e)
    with Suc.prems(1) have "run_beats pat n (Suc k) = Inl e" by simp
    from run_beats_Inl [OF this, of "nat T - Suc k"] lt
    have "run_beats pat n (nat T) = Inl e" by simp
    with Inl lt show ?thesis by simp
  next
    case (Inr st')
    with Suc.prems(1) have r: "run_beats pat n (Suc k) = Inr st'" by simp
    have "beat_loop pat n T (int (Suc k)) st' = run_beats pat n (nat T)"
      using Suc.hyps(2) lt by (intro Suc.hyps(1) [OF _ r]) simp_all
    with Inr lt show ?thesis by (simp add: add.commute)
  qed
qed

lemma build_run_beats:
  "buildSimulationPlan pat n loops =
     (case run_beats pat n (nat (totalBeats_of pat loops)) of
        Inl e \<Rightarrow> Inl e
      | Inr st \<Rightarrow> Inr \<lparr>flights = flights_acc st, beats = totalBeats_of pat loops\<rparr>)"
proof -
  have "0 \<le> totalBeats_of pat loops"
    by (simp add: totalBeats_of_def Let_def max_def)
  then have "beat_loop pat n (totalBeats_of pat loops) 0 initial_state
               = run_beats pat n (nat (totalBeats_of pat loops))"
    using beat_loop_run_beats [of pat n 0 initial_state "totalBeats_of pat loops"] by simp
  then show ?thesis by (simp add: buildSimulationPlan_def Let_def)
qed

lemma build_Inr:
  assumes "buildSimulationPlan pat n loops = Inr plan"
  obtains st where "run_beats pat n (nat (totalBeats_of pat loops)) = Inr st"
    and "flights plan = flights_acc st" and "beats plan = totalBeats_of pat loops"
  using assms by (auto simp: build_run_beats split: sum.splits)

lemma totalBeats_Nil: "totalBeats_of [] loops = 0"
  by (simp add: totalBeats_of_def)

lemma sorted_wrt_map_int_filter_upt: "sorted_wrt (<) (map int (filter P [0..<k]))"
  by (simp add: sorted_wrt_map sorted_wrt_filter)

section \<open>Ball identifiers stay in the pool\<close>

lemma resolve_valid:
  assumes "1 \<le> n" "0 \<le> b" "ids_ok n st" "resolve_ballId n st b = (bid, ca, nid)"
  shows "valid_id n bid \<and> 0 \<le> nid \<and> (\<forall>j v. ca j = Some v \<longrightarrow> valid_id n v)"
  using assms
  by (auto simp: resolve_ballId_def id_source_at_def ids_ok_def js_rem_num_valid
           split: if_splits)

lemma plan_step_ids_ok:
  assumes "1 \<le> n" "0 \<le> b" "ids_ok n st" "plan_step pat n st b = Inr st'"
  shows "ids_ok n st' \<and> valid_id n (fst (resolve_ballId n st b))"
proof -
  obtain bid ca nid where r: "resolve_ballId n st b = (bid, ca, nid)"
    by (cases "resolve_ballId n st b") auto
  note v = resolve_valid [OF assms(1-3) r]
  from assms(4) r v show ?thesis
    by (auto simp: plan_step_def Let_def ids_ok_def split: if_splits)
qed

lemma run_beats_ids:
  assumes "1 \<le> n"
  shows "run_beats pat n k = Inr st \<Longrightarrow>
           ids_ok n st \<and> (\<forall>f \<in> set (flights_acc st). valid_id n (ballId f))"
proof (induction k arbitrary: st)
  case 0
  then show ?case by (auto simp: initial_state_def ids_ok_def)
next
  case (Suc k)
  from Suc.prems obtain st0
    where r: "run_beats pat n k = Inr st0" and s: "plan_step pat n st0 (int k) = Inr st"
    by (rule run_beats_Suc_Inr)
  have ih: "ids_ok n st0" "\<forall>f \<in> set (flights_acc st0). valid_id n (ballId f)"
    using Suc.IH [OF r] by simp_all
  have st: "ids_ok n st" "valid_id n (fst (resolve_ballId n st0 (int k)))"
    using plan_step_ids_ok [OF assms _ ih(1) s] by simp_all
  show ?case
    using st ih(2) plan_step_flights [OF s] by (auto simp: emitted_def split: if_splits)
qed

section \<open>The range in which doubles are exact\<close>

lemma safe_flight:
  assumes "safe_integers pat loops"
    and "0 \<le> b" "b < int (nat (totalBeats_of pat loops))" "0 < throw_at pat b"
  shows "\<bar>b\<bar> \<le> MAX_SAFE_INTEGER \<and> \<bar>throw_at pat b\<bar> \<le> MAX_SAFE_INTEGER
       \<and> \<bar>b + throw_at pat b\<bar> \<le> MAX_SAFE_INTEGER"
proof -
  from assms(2,3) have T: "b < totalBeats_of pat loops"
    by (cases "0 \<le> totalBeats_of pat loops") simp_all
  then have "pat \<noteq> []" using assms(2) totalBeats_Nil by (cases pat) auto
  then have "throw_at pat b = pat ! nat (b mod int (length pat))"
    using assms(2) by (rule throw_at_eq)
  moreover have "nat (b mod int (length pat)) < length pat"
    using \<open>pat \<noteq> []\<close> by (simp add: nat_less_iff)
  ultimately have "throw_at pat b \<in> set pat" by simp
  with assms(1) have "\<bar>throw_at pat b\<bar> + totalBeats_of pat loops \<le> MAX_SAFE_INTEGER"
    unfolding safe_integers_def by blast
  with T assms(2,4) show ?thesis by simp
qed

section \<open>Properties of every plan\<close>

text \<open>
  C3. Whenever \<open>buildSimulationPlan\<close> returns a plan for a non-empty pattern, whatever the
  ball count and the repetitions, the start beats of its flights, as a multiset, are exactly
  the set of beats \<open>b\<close> in \<open>[0, totalBeats)\<close> with \<open>pattern[b mod period] > 0\<close>; so each start
  beat occurs once and the flight list is strictly ascending by start beat.
\<close>

theorem startBeats_exact:
  assumes "buildSimulationPlan pat n loops = Inr plan" and "pat \<noteq> []"
  shows "mset (map startBeat (flights plan)) =
           mset_set {b. 0 \<le> b \<and> b < totalBeats_of pat loops
                        \<and> 0 < pat ! nat (b mod int (length pat))}
         \<and> distinct (map startBeat (flights plan))
         \<and> sorted_wrt (<) (map startBeat (flights plan))"
proof -
  define T where "T = totalBeats_of pat loops"
  from assms(1) obtain st
    where r: "run_beats pat n (nat T) = Inr st" and f: "flights plan = flights_acc st"
    unfolding T_def by (rule build_Inr)
  let ?P = "\<lambda>b. 0 < throw_at pat (int b)"
  have m: "map startBeat (flights plan) = map int (filter ?P [0..<nat T])"
    using run_beats_startBeats [OF r] f by simp
  have s: "sorted_wrt (<) (map startBeat (flights plan))"
    unfolding m by (rule sorted_wrt_map_int_filter_upt)
  then have d: "distinct (map startBeat (flights plan))"
    by (simp add: strict_sorted_iff)
  have "set (map startBeat (flights plan)) =
          {b. 0 \<le> b \<and> b < T \<and> 0 < pat ! nat (b mod int (length pat))}" (is "?L = ?R")
  proof (intro set_eqI iffI)
    fix b assume "b \<in> ?L"
    then obtain j where "j < nat T" "?P j" "b = int j" unfolding m by auto
    then show "b \<in> ?R" using throw_at_eq [OF assms(2), of "int j"] by simp
  next
    fix b assume "b \<in> ?R"
    then have "nat b < nat T" "?P (nat b)" "b = int (nat b)"
      using throw_at_eq [OF assms(2), of b] by simp_all
    then have "nat b \<in> set (filter ?P [0..<nat T])" by simp
    then have "int (nat b) \<in> int ` set (filter ?P [0..<nat T])" by (rule imageI)
    with \<open>b = int (nat b)\<close> show "b \<in> ?L" unfolding m set_map by simp
  qed
  then have "mset_set {b. 0 \<le> b \<and> b < T \<and> 0 < pat ! nat (b mod int (length pat))}
               = mset (map startBeat (flights plan))"
    using mset_set_set [OF d] by simp
  with d s show ?thesis unfolding T_def by simp
qed

theorem startBeats_exact_witness:
  "mset (map startBeat (flights \<lparr>flights = [emitted [4, 0] (Num 0) 0, emitted [4, 0] (Num 0) 2],
                                  beats = 4\<rparr>)) =
     mset_set {b. 0 \<le> b \<and> b < totalBeats_of [4, 0] (Some 2)
                  \<and> 0 < [4, 0 :: int] ! nat (b mod int (length [4, 0 :: int]))}
   \<and> distinct (map startBeat (flights \<lparr>flights = [emitted [4, 0] (Num 0) 0,
                                                  emitted [4, 0] (Num 0) 2], beats = 4\<rparr>))
   \<and> sorted_wrt (<) (map startBeat (flights \<lparr>flights = [emitted [4, 0] (Num 0) 0,
                                                  emitted [4, 0] (Num 0) 2], beats = 4\<rparr>))"
proof -
  have e: "buildSimulationPlan [4, 0] 2 (Some 2) =
     Inr \<lparr>flights = [emitted [4, 0] (Num 0) 0, emitted [4, 0] (Num 0) 2], beats = 4\<rparr>"
    by code_simp
  have ne: "[4, 0 :: int] \<noteq> []" by simp
  show ?thesis by (rule startBeats_exact [OF e ne])
qed

text \<open>
  C4. With a ball count of at least 1, every flight of a returned plan carries a ball
  identifier in \<open>[0, ballCount)\<close>, whichever of the three branches resolved it.
\<close>

theorem ballId_in_range:
  assumes "1 \<le> n" and "buildSimulationPlan pat n loops = Inr plan"
    and "f \<in> set (flights plan)"
  shows "\<exists>i. ballId f = Num i \<and> 0 \<le> i \<and> i < n"
proof -
  from assms(2) obtain st
    where r: "run_beats pat n (nat (totalBeats_of pat loops)) = Inr st"
      and f: "flights plan = flights_acc st"
    by (rule build_Inr)
  have "valid_id n (ballId f)"
    using run_beats_ids [OF assms(1) r] assms(3) f by simp
  then show ?thesis by (cases "ballId f") simp_all
qed

theorem ballId_in_range_witness:
  "\<exists>i. ballId (emitted [4, 0] (Num 0) 2) = Num i \<and> 0 \<le> i \<and> i < 2"
proof -
  have e: "buildSimulationPlan [4, 0] 2 (Some 2) =
     Inr \<lparr>flights = [emitted [4, 0] (Num 0) 0, emitted [4, 0] (Num 0) 2], beats = 4\<rparr>"
    by code_simp
  have n: "(1::int) \<le> 2" by simp
  show ?thesis by (rule ballId_in_range [OF n e]) simp
qed

text \<open>
  C5. In every flight of a returned plan, for heights and beats in the range of the safe
  integers, the source hand is left exactly when the start beat is even and right
  otherwise, and the destination hand is left exactly when start beat plus throw height is
  even; so an odd throw changes hands and an even throw returns to the same hand.
\<close>

theorem hands_by_parity:
  assumes "safe_integers pat loops"
    and "buildSimulationPlan pat n loops = Inr plan" and "f \<in> set (flights plan)"
  shows "(fromHand f = Left \<longleftrightarrow> even (startBeat f))
       \<and> (fromHand f = Right \<longleftrightarrow> odd (startBeat f))
       \<and> (toHand f = Left \<longleftrightarrow> even (startBeat f + throwValue f))
       \<and> (odd (throwValue f) \<longrightarrow> toHand f \<noteq> fromHand f)
       \<and> (even (throwValue f) \<longrightarrow> toHand f = fromHand f)
       \<and> \<bar>startBeat f\<bar> \<le> MAX_SAFE_INTEGER \<and> \<bar>throwValue f\<bar> \<le> MAX_SAFE_INTEGER
       \<and> \<bar>startBeat f + throwValue f\<bar> \<le> MAX_SAFE_INTEGER"
proof -
  from assms(2) obtain st
    where r: "run_beats pat n (nat (totalBeats_of pat loops)) = Inr st"
      and f: "flights plan = flights_acc st"
    by (rule build_Inr)
  from run_beats_flights [OF r] assms(3) f obtain b bid
    where b: "0 \<le> b" "b < int (nat (totalBeats_of pat loops))" "0 < throw_at pat b"
      and e: "f = emitted pat bid b"
    by auto
  have 1: "(fromHand f = Left \<longleftrightarrow> even (startBeat f))
       \<and> (fromHand f = Right \<longleftrightarrow> odd (startBeat f))
       \<and> (toHand f = Left \<longleftrightarrow> even (startBeat f + throwValue f))
       \<and> (odd (throwValue f) \<longrightarrow> toHand f \<noteq> fromHand f)
       \<and> (even (throwValue f) \<longrightarrow> toHand f = fromHand f)"
    using e by (simp add: emitted_def js_rem_2_iff)
  have 2: "\<bar>startBeat f\<bar> \<le> MAX_SAFE_INTEGER \<and> \<bar>throwValue f\<bar> \<le> MAX_SAFE_INTEGER
       \<and> \<bar>startBeat f + throwValue f\<bar> \<le> MAX_SAFE_INTEGER"
    using safe_flight [OF assms(1) b] e by (simp add: emitted_def)
  from 1 2 show ?thesis by simp
qed

theorem hands_by_parity_witness:
  "fromHand (emitted [3] (Num 1) 1) = Right \<and> odd (startBeat (emitted [3] (Num 1) 1))
   \<and> toHand (emitted [3] (Num 1) 1) = Left
   \<and> even (startBeat (emitted [3] (Num 1) 1) + throwValue (emitted [3] (Num 1) 1))
   \<and> odd (throwValue (emitted [3] (Num 1) 1))
   \<and> toHand (emitted [3] (Num 1) 1) \<noteq> fromHand (emitted [3] (Num 1) 1)"
proof -
  have s: "safe_integers [3] (Some 2)"
    by (simp add: safe_integers_def MAX_SAFE_INTEGER_def totalBeats_of_def)
  have e: "buildSimulationPlan [3] 3 (Some 2) =
     Inr \<lparr>flights = [emitted [3] (Num 0) 0, emitted [3] (Num 1) 1], beats = 2\<rparr>"
    by code_simp
  have m: "emitted [3] (Num 1) 1
             \<in> set (flights \<lparr>flights = [emitted [3] (Num 0) 0, emitted [3] (Num 1) 1],
                              beats = 2\<rparr>)"
    by simp
  have sb: "startBeat (emitted [3] (Num 1) 1) = 1"
    by (simp add: emitted_def)
  have tv: "throwValue (emitted [3] (Num 1) 1) = 3"
    by (simp add: emitted_def throw_at_def js_rem_def)
  from hands_by_parity [OF s e m] show ?thesis
    unfolding sb tv by simp
qed

text \<open>
  C6. For a non-empty pattern the beat count of a returned plan is
  \<open>max (repetitions * period) period\<close>, the repetitions being 6 when the argument is
  omitted; it is therefore at least one period.
\<close>

theorem plan_beats:
  assumes "buildSimulationPlan pat n loops = Inr plan" and "pat \<noteq> []"
  shows "beats plan = max ((case loops of None \<Rightarrow> 6 | Some r \<Rightarrow> r) * int (length pat))
                          (int (length pat))
       \<and> int (length pat) \<le> beats plan"
  using assms(1) by (rule build_Inr) (simp add: totalBeats_of_def Let_def)

theorem plan_beats_witness:
  "beats \<lparr>flights = [emitted [3] (Num 0) 0, emitted [3] (Num 1) 1, emitted [3] (Num 2) 2,
                     emitted [3] (Num 0) 3, emitted [3] (Num 1) 4, emitted [3] (Num 2) 5],
          beats = 6\<rparr> = max (6 * int (length [3 :: int])) (int (length [3 :: int]))"
proof -
  have e: "buildSimulationPlan [3] 3 None =
     Inr \<lparr>flights = [emitted [3] (Num 0) 0, emitted [3] (Num 1) 1, emitted [3] (Num 2) 2,
                     emitted [3] (Num 0) 3, emitted [3] (Num 1) 4, emitted [3] (Num 2) 5],
          beats = 6\<rparr>"
    by code_simp
  have ne: "[3 :: int] \<noteq> []" by simp
  from plan_beats [OF e ne] show ?thesis by simp
qed

text \<open>
  C7. In every flight of a returned plan, for heights and beats in the range of the safe
  integers, the end beat is the start beat plus the throw height, and the throw height is
  the pattern's entry at the start beat modulo the period.
\<close>

theorem flight_beats:
  assumes "safe_integers pat loops"
    and "buildSimulationPlan pat n loops = Inr plan" and "f \<in> set (flights plan)"
  shows "endBeat f - startBeat f = throwValue f
       \<and> endBeat f = startBeat f + throwValue f
       \<and> throwValue f = pat ! nat (startBeat f mod int (length pat))
       \<and> \<bar>startBeat f\<bar> \<le> MAX_SAFE_INTEGER \<and> \<bar>throwValue f\<bar> \<le> MAX_SAFE_INTEGER
       \<and> \<bar>endBeat f\<bar> \<le> MAX_SAFE_INTEGER"
proof -
  from assms(2) obtain st
    where r: "run_beats pat n (nat (totalBeats_of pat loops)) = Inr st"
      and f: "flights plan = flights_acc st"
    by (rule build_Inr)
  from run_beats_flights [OF r] assms(3) f obtain b bid
    where b: "0 \<le> b" "b < int (nat (totalBeats_of pat loops))" "0 < throw_at pat b"
      and e: "f = emitted pat bid b"
    by auto
  from b have "pat \<noteq> []" using totalBeats_Nil by (cases pat) auto
  then have 1: "endBeat f - startBeat f = throwValue f
       \<and> endBeat f = startBeat f + throwValue f
       \<and> throwValue f = pat ! nat (startBeat f mod int (length pat))"
    using e b(1) by (simp add: emitted_def throw_at_eq)
  have 2: "\<bar>startBeat f\<bar> \<le> MAX_SAFE_INTEGER \<and> \<bar>throwValue f\<bar> \<le> MAX_SAFE_INTEGER
       \<and> \<bar>endBeat f\<bar> \<le> MAX_SAFE_INTEGER"
    using safe_flight [OF assms(1) b] e by (simp add: emitted_def)
  from 1 2 show ?thesis by simp
qed

theorem flight_beats_witness:
  "endBeat (emitted [4, 0] (Num 0) 2) - startBeat (emitted [4, 0] (Num 0) 2)
     = throwValue (emitted [4, 0] (Num 0) 2)
   \<and> endBeat (emitted [4, 0] (Num 0) 2)
     = startBeat (emitted [4, 0] (Num 0) 2) + throwValue (emitted [4, 0] (Num 0) 2)
   \<and> throwValue (emitted [4, 0] (Num 0) 2)
     = [4, 0] ! nat (startBeat (emitted [4, 0] (Num 0) 2) mod int (length [4, 0 :: int]))
   \<and> \<bar>startBeat (emitted [4, 0] (Num 0) 2)\<bar> \<le> MAX_SAFE_INTEGER
   \<and> \<bar>throwValue (emitted [4, 0] (Num 0) 2)\<bar> \<le> MAX_SAFE_INTEGER
   \<and> \<bar>endBeat (emitted [4, 0] (Num 0) 2)\<bar> \<le> MAX_SAFE_INTEGER"
proof -
  have s: "safe_integers [4, 0] (Some 2)"
    by (simp add: safe_integers_def MAX_SAFE_INTEGER_def totalBeats_of_def)
  have e: "buildSimulationPlan [4, 0] 2 (Some 2) =
     Inr \<lparr>flights = [emitted [4, 0] (Num 0) 0, emitted [4, 0] (Num 0) 2], beats = 4\<rparr>"
    by code_simp
  have m: "emitted [4, 0] (Num 0) 2
             \<in> set (flights \<lparr>flights = [emitted [4, 0] (Num 0) 0, emitted [4, 0] (Num 0) 2],
                              beats = 4\<rparr>)"
    by simp
  show ?thesis by (rule flight_beats [OF s e m])
qed

section \<open>The validator\<close>

lemma indexOf_ge: "- 1 \<le> indexOf xs c"
  by (induction xs) (auto simp: Let_def)

lemma parse_chars_nonneg: "parse_chars s = Inr pat \<Longrightarrow> \<forall>v \<in> set pat. 0 \<le> v"
proof (induction s arbitrary: pat)
  case Nil
  then show ?case by simp
next
  case (Cons c cs)
  then obtain vs where vs: "parse_chars cs = Inr vs" and p: "pat = indexOf CHAR_MAP c # vs"
    and ne: "indexOf CHAR_MAP c \<noteq> - 1"
    by (auto simp: Let_def split: if_splits sum.splits)
  from ne indexOf_ge [of CHAR_MAP c] have "0 \<le> indexOf CHAR_MAP c" by linarith
  with Cons.IH [OF vs] p show ?case by simp
qed

lemma parse_chars_length: "parse_chars s = Inr pat \<Longrightarrow> length pat = length s"
  by (induction s arbitrary: pat) (auto simp: Let_def split: if_splits sum.splits)

lemma foldl_add_sum_list: "foldl (\<lambda>acc v. acc + v) a xs = a + sum_list (xs :: int list)"
  by (induction xs arbitrary: a) simp_all

lemma sum_list_pos:
  "\<forall>v \<in> set xs. 0 \<le> v \<Longrightarrow> \<not> list_all (\<lambda>v. v = 0) xs \<Longrightarrow> 1 \<le> sum_list (xs :: int list)"
proof (induction xs)
  case Nil
  then show ?case by simp
next
  case (Cons x xs)
  have "0 \<le> sum_list xs" using Cons.prems(1) by (simp add: sum_list_nonneg)
  show ?case
  proof (cases "x = 0")
    case True
    with Cons show ?thesis by simp
  next
    case False
    with Cons.prems(1) have "1 \<le> x" by simp
    with \<open>0 \<le> sum_list xs\<close> show ?thesis by simp
  qed
qed

lemma div_ge_1:
  assumes "1 \<le> (s::int)" "0 < p" "s mod p = 0"
  shows "1 \<le> s div p"
proof -
  have "s = p * (s div p)" using assms(3) by auto
  with assms(1,2) have "0 < p * (s div p)" by simp
  with assms(2) have "0 < s div p" by (simp add: zero_less_mult_iff)
  then show ?thesis by simp
qed

lemma balls_ge_1:
  assumes "parse_chars s = Inr pat" "s \<noteq> []" "\<not> list_all (\<lambda>v. v = 0) pat"
    "foldl (\<lambda>acc v. acc + v) 0 pat mod int (length pat) = 0"
  shows "1 \<le> foldl (\<lambda>acc v. acc + v) 0 pat div int (length pat)"
proof -
  have "1 \<le> foldl (\<lambda>acc v. acc + v) 0 pat"
    using sum_list_pos [OF parse_chars_nonneg [OF assms(1)] assms(3)]
    by (simp add: foldl_add_sum_list)
  moreover have "0 < int (length pat)" using parse_chars_length [OF assms(1)] assms(2) by simp
  ultimately show ?thesis using assms(4) by (rule div_ge_1)
qed

lemma parse_chars_error:
  "parse_chars s = Inl e \<Longrightarrow>
     \<exists>c. e = SiteswapError (''Unsupported character '' @ [CHR 0x22, c, CHR 0x22]
                              @ ''. Use 0-9 or a-z for throws.'')"
  by (induction s) (auto simp: Let_def split: if_splits sum.splits)

lemma check_landings_error:
  "check_landings p xs i S = Inl e \<Longrightarrow>
     e = SiteswapError ''Two balls collide in the same beat (invalid pattern).''"
  by (induction p xs i S rule: check_landings.induct) (auto simp: Let_def split: if_splits)

lemma first_collision_Some:
  "first_collision p xs i S = Some l \<Longrightarrow>
     check_landings p xs i S =
       Inl (SiteswapError ''Two balls collide in the same beat (invalid pattern).'')"
  by (induction p xs i S rule: check_landings.induct) (auto simp: Let_def split: if_splits)

text \<open>
  C8. The input \<open>"240"\<close> is not empty after cleaning, maps to the heights \<open>[2, 4, 0]\<close>, which
  are not all zero, with sum 6, period 3 and integer average 2; indices 0 and 1 both land
  at slot 2 modulo the period, and validation fails with the landing-collision error.
\<close>

theorem scenario_240:
  "cleaned_input ''240'' = ''240'' \<and> ''240'' \<noteq> []
   \<and> parse_chars ''240'' = Inr [2, 4, 0]
   \<and> \<not> list_all (\<lambda>v. v = 0) [2, 4, 0 :: int]
   \<and> foldl (\<lambda>acc v. acc + v) 0 [2, 4, 0 :: int] = 6
   \<and> int (length [2, 4, 0 :: int]) = 3
   \<and> (6 :: int) mod 3 = 0 \<and> (6 :: int) div 3 = 2
   \<and> js_rem (0 + 2) 3 = 2 \<and> js_rem (1 + 4) 3 = 2
   \<and> check_landings 3 [2, 4, 0] 0 {} =
        Inl (SiteswapError ''Two balls collide in the same beat (invalid pattern).'')
   \<and> parseSiteswap ''240'' =
        Inl (SiteswapError ''Two balls collide in the same beat (invalid pattern).'')"
  by code_simp

text \<open>
  C9, as stated: the landing-collision failure names the colliding beat in its message.
  It does not. For \<open>"240"\<close> the loop throws at landing slot 2 and for \<open>"132"\<close> at landing
  slot 1; both fail with the same message, in which the digit 2 does not occur.
\<close>

theorem collision_message_counterexample:
  "first_collision 3 [2, 4, 0] 0 {} = Some 2
   \<and> show_int 2 = ''2''
   \<and> parseSiteswap ''240'' =
        Inl (SiteswapError ''Two balls collide in the same beat (invalid pattern).'')
   \<and> CHR ''2'' \<notin> set ''Two balls collide in the same beat (invalid pattern).''
   \<and> first_collision 3 [1, 3, 2] 0 {} = Some 1
   \<and> parseSiteswap ''132'' = parseSiteswap ''240''"
  by code_simp

text \<open>
  C9, amended: when validation fails the landing-slot distinctness check, at whichever
  landing slot, the failure surfaced to the caller carries the fixed message
  \<open>Two balls collide in the same beat (invalid pattern).\<close>, which does not depend on the
  colliding slot.
\<close>

theorem collision_message_fixed:
  assumes "parse_chars (cleaned_input rawInput) = Inr pat" and "cleaned_input rawInput \<noteq> []"
    and "\<not> list_all (\<lambda>v. v = 0) pat"
    and "foldl (\<lambda>acc v. acc + v) 0 pat mod int (length pat) = 0"
    and "first_collision (int (length pat)) pat 0 {} = Some slot"
  shows "parseSiteswap rawInput =
           Inl (SiteswapError ''Two balls collide in the same beat (invalid pattern).'')"
  using assms first_collision_Some [OF assms(5)]
  by (simp add: parseSiteswap_def Let_def)

theorem collision_message_fixed_witness:
  "parseSiteswap ''2 4 0'' =
     Inl (SiteswapError ''Two balls collide in the same beat (invalid pattern).'')"
proof -
  have 1: "parse_chars (cleaned_input ''2 4 0'') = Inr [2, 4, 0]" by code_simp
  have 2: "cleaned_input ''2 4 0'' \<noteq> []" by code_simp
  have 3: "\<not> list_all (\<lambda>v. v = 0) [2, 4, 0 :: int]" by simp
  have 4: "foldl (\<lambda>acc v. acc + v) 0 [2, 4, 0] mod int (length [2, 4, 0 :: int]) = 0" by simp
  have 5: "first_collision (int (length [2, 4, 0 :: int])) [2, 4, 0] 0 {} = Some 2" by code_simp
  show ?thesis by (rule collision_message_fixed [OF 1 2 3 4 5])
qed

text \<open>
  C10. The \<open>balls < 1\<close> branch is dead: for every input that passes the empty, character,
  all-zero and integer-average checks, the derived ball count \<open>sum / period\<close> is at least 1,
  and \<open>parseSiteswap\<close> never fails with the at-least-one-ball error.
\<close>

theorem zero_balls_unreachable:
  "parseSiteswap rawInput \<noteq> Inl (SiteswapError ''Pattern must include at least one ball.'')
   \<and> (parse_chars (cleaned_input rawInput) = Inr pat \<and> cleaned_input rawInput \<noteq> []
        \<and> \<not> list_all (\<lambda>v. v = 0) pat
        \<and> foldl (\<lambda>acc v. acc + v) 0 pat mod int (length pat) = 0
      \<longrightarrow> 1 \<le> foldl (\<lambda>acc v. acc + v) 0 pat div int (length pat))"
proof -
  let ?c = "cleaned_input rawInput"
  have "parseSiteswap rawInput \<noteq> Inl (SiteswapError ''Pattern must include at least one ball.'')"
  proof (cases "?c = []")
    case True
    then show ?thesis by (simp add: parseSiteswap_def)
  next
    case ne: False
    show ?thesis
    proof (cases "parse_chars ?c")
      case (Inl e)
      from parse_chars_error [OF Inl] ne Inl show ?thesis
        by (auto simp: parseSiteswap_def)
    next
      case (Inr p)
      show ?thesis
      proof (cases "\<not> list_all (\<lambda>v. v = 0) p
                     \<and> foldl (\<lambda>acc v. acc + v) 0 p mod int (length p) = 0")
        case True
        then have "1 \<le> foldl (\<lambda>acc v. acc + v) 0 p div int (length p)"
          using balls_ge_1 [OF Inr ne] by simp
        with ne Inr True show ?thesis
          by (auto simp: parseSiteswap_def Let_def split: sum.splits dest!: check_landings_error)
      next
        case False
        with ne Inr show ?thesis
          by (auto simp: parseSiteswap_def Let_def)
      qed
    qed
  qed
  moreover have "1 \<le> foldl (\<lambda>acc v. acc + v) 0 pat div int (length pat)"
    if "parse_chars ?c = Inr pat \<and> ?c \<noteq> [] \<and> \<not> list_all (\<lambda>v. v = 0) pat
        \<and> foldl (\<lambda>acc v. acc + v) 0 pat mod int (length pat) = 0"
    using that by (elim conjE) (rule balls_ge_1)
  ultimately show ?thesis by (intro conjI impI)
qed

theorem zero_balls_unreachable_witness:
  "parseSiteswap ''20'' \<noteq> Inl (SiteswapError ''Pattern must include at least one ball.'')
   \<and> 1 \<le> foldl (\<lambda>acc v. acc + v) 0 [2, 0] div int (length [2, 0 :: int])"
proof -
  have h: "parse_chars (cleaned_input ''20'') = Inr [2, 0] \<and> cleaned_input ''20'' \<noteq> []
        \<and> \<not> list_all (\<lambda>v. v = 0) [2, 0 :: int]
        \<and> foldl (\<lambda>acc v. acc + v) 0 [2, 0] mod int (length [2, 0 :: int]) = 0"
    by code_simp
  from zero_balls_unreachable [of "''20''" "[2, 0]"] have
    "parseSiteswap ''20'' \<noteq> Inl (SiteswapError ''Pattern must include at least one ball.'')"
    and "parse_chars (cleaned_input ''20'') = Inr [2, 0] \<and> cleaned_input ''20'' \<noteq> []
        \<and> \<not> list_all (\<lambda>v. v = 0) [2, 0 :: int]
        \<and> foldl (\<lambda>acc v. acc + v) 0 [2, 0] mod int (length [2, 0 :: int]) = 0
      \<longrightarrow> 1 \<le> foldl (\<lambda>acc v. acc + v) 0 [2, 0] div int (length [2, 0 :: int])"
    by (rule conjunct1, rule conjunct2)
  with h show ?thesis by (intro conjI) (assumption, erule (1) mp)
qed

section \<open>What validation establishes\<close>

lemma check_landings_Inr:
  "check_landings p xs idx S = Inr S' \<Longrightarrow>
     S \<subseteq> S'
     \<and> (\<forall>i<length xs. xs ! i \<noteq> 0 \<longrightarrow>
           js_rem (idx + int i + xs ! i) p \<in> S' \<and> js_rem (idx + int i + xs ! i) p \<notin> S)
     \<and> (\<forall>i<length xs. \<forall>j<length xs. i < j \<and> xs ! i \<noteq> 0 \<and> xs ! j \<noteq> 0 \<longrightarrow>
           js_rem (idx + int i + xs ! i) p \<noteq> js_rem (idx + int j + xs ! j) p)"
proof (induction p xs idx S arbitrary: S' rule: check_landings.induct)
  case (1 p index landings)
  then show ?case by simp
next
  case (2 p v rest index landings)
  let ?slot = "\<lambda>xs idx i. js_rem (idx + int i + xs ! i) p"
  have shift: "?slot (v # rest) index (Suc i) = ?slot rest (index + 1) i" for i
    by (simp add: ac_simps)
  show ?case
  proof (cases "v = 0")
    case True
    with "2.prems" have r: "check_landings p rest (index + 1) landings = Inr S'" by simp
    note ih = "2.IH"(1) [OF True r]
    have A: "landings \<subseteq> S'" using ih by simp
    have B: "?slot (v # rest) index i \<in> S' \<and> ?slot (v # rest) index i \<notin> landings"
      if "i < length (v # rest)" "(v # rest) ! i \<noteq> 0" for i
    proof -
      from that obtain i' where i: "i = Suc i'" "i' < length rest" "rest ! i' \<noteq> 0"
        using True by (cases i) auto
      with ih show ?thesis unfolding i(1) shift by blast
    qed
    have C: "?slot (v # rest) index i \<noteq> ?slot (v # rest) index j"
      if "i < length (v # rest)" "j < length (v # rest)" "i < j"
         "(v # rest) ! i \<noteq> 0" "(v # rest) ! j \<noteq> 0" for i j
    proof -
      from that obtain i' j' where i: "i = Suc i'" "i' < length rest" "rest ! i' \<noteq> 0"
        and j: "j = Suc j'" "j' < length rest" "rest ! j' \<noteq> 0" and "i' < j'"
        using True by (cases i; cases j) auto
      with ih show ?thesis unfolding i(1) j(1) shift by blast
    qed
    from A B C show ?thesis by blast
  next
    case False
    define landing where "landing = js_rem (index + v) p"
    from False "2.prems" have nin: "landing \<notin> landings"
      and r: "check_landings p rest (index + 1) (insert landing landings) = Inr S'"
      by (auto simp: Let_def landing_def split: if_splits)
    have ih: "insert landing landings \<subseteq> S'
       \<and> (\<forall>i<length rest. rest ! i \<noteq> 0 \<longrightarrow>
             ?slot rest (index + 1) i \<in> S' \<and> ?slot rest (index + 1) i \<notin> insert landing landings)
       \<and> (\<forall>i<length rest. \<forall>j<length rest. i < j \<and> rest ! i \<noteq> 0 \<and> rest ! j \<noteq> 0 \<longrightarrow>
             ?slot rest (index + 1) i \<noteq> ?slot rest (index + 1) j)"
      using "2.IH"(2) [OF False refl, of S'] nin r unfolding landing_def by simp
    have head: "?slot (v # rest) index 0 = landing" by (simp add: landing_def)
    have A: "landings \<subseteq> S'" using ih by auto
    have B: "?slot (v # rest) index i \<in> S' \<and> ?slot (v # rest) index i \<notin> landings"
      if a: "i < length (v # rest)" "(v # rest) ! i \<noteq> 0" for i
    proof (cases i)
      case 0
      then show ?thesis using ih nin head by auto
    next
      case (Suc i')
      with a have "i' < length rest" "rest ! i' \<noteq> 0" by auto
      with ih show ?thesis unfolding Suc shift by blast
    qed
    have C: "?slot (v # rest) index i \<noteq> ?slot (v # rest) index j"
      if a: "i < length (v # rest)" "j < length (v # rest)" "i < j"
         "(v # rest) ! i \<noteq> 0" "(v # rest) ! j \<noteq> 0" for i j
    proof -
      from a obtain j' where j: "j = Suc j'" "j' < length rest" "rest ! j' \<noteq> 0"
        by (cases j) auto
      show ?thesis
      proof (cases i)
        case 0
        have "?slot rest (index + 1) j' \<notin> insert landing landings" using ih j by blast
        then show ?thesis unfolding 0 j(1) shift head by auto
      next
        case (Suc i')
        with a j have "i' < length rest" "rest ! i' \<noteq> 0" "i' < j'" by auto
        with ih j show ?thesis unfolding Suc j(1) shift by blast
      qed
    qed
    from A B C show ?thesis by blast
  qed
qed

lemma check_landings_distinct:
  assumes "check_landings (int (length pat)) pat 0 {} = Inr S"
  shows "slots_distinct pat"
proof -
  have lt: "landing_slot pat i \<noteq> landing_slot pat j"
    if "i < j" "j < length pat" "pat ! i \<noteq> 0" "pat ! j \<noteq> 0" for i j
    using check_landings_Inr [OF assms] that by (simp add: landing_slot_def)
  show ?thesis
    unfolding slots_distinct_def
  proof (intro allI impI)
    fix i j assume "i < length pat" "j < length pat" "i \<noteq> j \<and> pat ! i \<noteq> 0 \<and> pat ! j \<noteq> 0"
    then show "landing_slot pat i \<noteq> landing_slot pat j"
      using lt [of i j] lt [of j i] by (cases "i < j") auto
  qed
qed

lemma parse_accepts:
  assumes "parseSiteswap rawInput = Inr d"
  shows "pattern d \<noteq> []" and "\<forall>v \<in> set (pattern d). 0 \<le> v" and "slots_distinct (pattern d)"
    and "sum_list (pattern d) = balls d * int (length (pattern d))" and "1 \<le> balls d"
    and "period d = int (length (pattern d))"
proof -
  define pat where "pat = pattern d"
  from assms have c: "cleaned_input rawInput \<noteq> []"
    by (auto simp: parseSiteswap_def Let_def split: if_splits)
  from assms c obtain p where p: "parse_chars (cleaned_input rawInput) = Inr p"
    by (auto simp: parseSiteswap_def Let_def split: sum.splits)
  from assms c p obtain S where
    z: "\<not> list_all (\<lambda>v. v = 0) p" and m: "foldl (\<lambda>acc v. acc + v) 0 p mod int (length p) = 0"
    and l: "check_landings (int (length p)) p 0 {} = Inr S"
    and d: "d = \<lparr>pattern = p, period = int (length p),
                 balls = foldl (\<lambda>acc v. acc + v) 0 p div int (length p), maxThrow = Max (set p)\<rparr>"
    by (auto simp: parseSiteswap_def Let_def split: sum.splits if_splits)
  have len: "length p = length (cleaned_input rawInput)" using p by (rule parse_chars_length)
  show "pattern d \<noteq> []" using d len c by auto
  show "\<forall>v \<in> set (pattern d). 0 \<le> v" using parse_chars_nonneg [OF p] d by simp
  show "slots_distinct (pattern d)" using check_landings_distinct [OF l] d by simp
  show "sum_list (pattern d) = balls d * int (length (pattern d))"
    using m d by (auto simp: foldl_add_sum_list)
  show "1 \<le> balls d" using balls_ge_1 [OF p c z m] d by simp
  show "period d = int (length (pattern d))" using d by simp
qed

lemma landing_slot_of_beat:
  assumes "pat \<noteq> []" "0 \<le> b" "0 \<le> throw_at pat b"
  shows "landing_slot pat (nat (b mod int (length pat))) = (b + throw_at pat b) mod int (length pat)"
proof -
  let ?L = "int (length pat)"
  have L: "0 < ?L" using assms(1) by simp
  have t: "throw_at pat b = pat ! nat (b mod ?L)" using assms(1,2) by (rule throw_at_eq)
  have "0 \<le> b mod ?L" using L by simp
  then have "landing_slot pat (nat (b mod ?L)) = (b mod ?L + throw_at pat b) mod ?L"
    using assms(3) L by (simp add: landing_slot_def t [symmetric] js_rem_nonneg)
  then show ?thesis by (simp add: mod_add_left_eq)
qed

lemma landing_beat_inj:
  assumes "pat \<noteq> []" "slots_distinct pat" "0 \<le> b" "0 \<le> k"
    and "0 < throw_at pat b" "0 < throw_at pat k"
    and "b + throw_at pat b = k + throw_at pat k"
  shows "b = k"
proof -
  let ?L = "int (length pat)"
  let ?i = "nat (b mod ?L)" and ?j = "nat (k mod ?L)"
  have L: "0 < ?L" using assms(1) by simp
  have i: "?i < length pat" and j: "?j < length pat"
    using L by (simp_all add: nat_less_iff)
  have ti: "throw_at pat b = pat ! ?i" and tj: "throw_at pat k = pat ! ?j"
    using assms(1,3,4) by (simp_all add: throw_at_eq)
  have "landing_slot pat ?i = landing_slot pat ?j"
    using landing_slot_of_beat [OF assms(1,3)] landing_slot_of_beat [OF assms(1,4)] assms(5-7)
    by simp
  with assms(2) i j assms(5,6) have "?i = ?j"
    unfolding slots_distinct_def ti tj by (metis less_numeral_extra(3))
  then have "throw_at pat b = throw_at pat k" using ti tj by simp
  with assms(7) show ?thesis by simp
qed

lemma resolve_pending:
  assumes "resolve_ballId n st b = (bid, ca, nid)" "ca j \<noteq> None"
  shows "catchAssignments st j \<noteq> None"
  using assms by (auto simp: resolve_ballId_def split: id_source.splits if_splits)

lemma plan_step_no_conflict:
  assumes "pat \<noteq> []" "slots_distinct pat" "pending_ok pat k st"
  shows "(0 < throw_at pat (int k) \<longrightarrow>
            fst (snd (resolve_ballId n st (int k))) (int k + throw_at pat (int k)) = None)
       \<and> (\<exists>st'. plan_step pat n st (int k) = Inr st' \<and> pending_ok pat (Suc k) st')"
proof -
  obtain bid ca nid where r: "resolve_ballId n st (int k) = (bid, ca, nid)"
    by (cases "resolve_ballId n st (int k)") auto
  have free: "ca (int k + throw_at pat (int k)) = None" if pos: "0 < throw_at pat (int k)"
  proof (rule ccontr)
    assume "ca (int k + throw_at pat (int k)) \<noteq> None"
    then have "catchAssignments st (int k + throw_at pat (int k)) \<noteq> None"
      using r by (rule resolve_pending [rotated])
    with assms(3) obtain b where b: "0 \<le> b" "b < int k" "0 < throw_at pat b"
      "int k + throw_at pat (int k) = b + throw_at pat b"
      unfolding pending_ok_def by blast
    have "b = int k"
      using landing_beat_inj [OF assms(1,2) b(1) _ b(3) pos] b(4) by simp
    with b(2) show False by simp
  qed
  have ca: "\<exists>b. 0 \<le> b \<and> b < int k \<and> 0 < throw_at pat b \<and> j = b + throw_at pat b"
    if "ca j \<noteq> None" for j
    using resolve_pending [OF r that] assms(3) unfolding pending_ok_def by blast
  show ?thesis
  proof (cases "0 < throw_at pat (int k)")
    case True
    let ?st' = "\<lparr>catchAssignments = ca(int k + throw_at pat (int k) \<mapsto> bid), nextBallId = nid,
                 flights_acc = flights_acc st @ [emitted pat bid (int k)]\<rparr>"
    have s: "plan_step pat n st (int k) = Inr ?st'"
      using True free r by (simp add: plan_step_def Let_def emitted_def)
    have "pending_ok pat (Suc k) ?st'"
      unfolding pending_ok_def
    proof (intro allI impI)
      fix j assume "catchAssignments ?st' j \<noteq> None"
      then consider "j = int k + throw_at pat (int k)" | "ca j \<noteq> None"
        by (auto split: if_splits)
      then show "\<exists>b. 0 \<le> b \<and> b < int (Suc k) \<and> 0 < throw_at pat b \<and> j = b + throw_at pat b"
      proof cases
        case 1
        with True show ?thesis by (intro exI [of _ "int k"]) simp
      next
        case 2
        from ca [OF 2] obtain b where "0 \<le> b" "b < int k" "0 < throw_at pat b" "j = b + throw_at pat b"
          by blast
        then show ?thesis by (intro exI [of _ b]) simp
      qed
    qed
    with s True free r show ?thesis by simp
  next
    case False
    let ?st' = "\<lparr>catchAssignments = ca, nextBallId = nid, flights_acc = flights_acc st\<rparr>"
    have s: "plan_step pat n st (int k) = Inr ?st'"
      using False r by (simp add: plan_step_def Let_def)
    have "pending_ok pat (Suc k) ?st'"
      unfolding pending_ok_def
    proof (intro allI impI)
      fix j assume "catchAssignments ?st' j \<noteq> None"
      then have "ca j \<noteq> None" by simp
      from ca [OF this] obtain b where "0 \<le> b" "b < int k" "0 < throw_at pat b" "j = b + throw_at pat b"
        by blast
      then show "\<exists>b. 0 \<le> b \<and> b < int (Suc k) \<and> 0 < throw_at pat b \<and> j = b + throw_at pat b"
        by (intro exI [of _ b]) simp
    qed
    with s False show ?thesis by simp
  qed
qed

lemma run_beats_total:
  assumes "pat \<noteq> []" "slots_distinct pat"
  shows "\<exists>st. run_beats pat n k = Inr st \<and> pending_ok pat k st"
proof (induction k)
  case 0
  show ?case by (simp add: initial_state_def pending_ok_def)
next
  case (Suc k)
  then obtain st where st: "run_beats pat n k = Inr st" "pending_ok pat k st" by blast
  from plan_step_no_conflict [OF assms st(2), of n] st(1) show ?case by auto
qed


section \<open>Accepted patterns never hit the landing conflict\<close>

text \<open>
  C1. For every pattern that \<open>parseSiteswap\<close> accepts, planning with that pattern and its
  derived ball count, for any repetitions, never reaches the landing-conflict branch: at
  every beat the loop reaches its body's state, the landing beat of a non-zero throw has no
  entry in the pending-landing table, and \<open>buildSimulationPlan\<close> returns a plan.
\<close>

theorem no_landing_conflict:
  assumes "parseSiteswap rawInput = Inr d"
  shows "(\<exists>plan. buildSimulationPlan (pattern d) (balls d) loops = Inr plan)
       \<and> (\<forall>k. \<exists>st. run_beats (pattern d) (balls d) k = Inr st
              \<and> (0 < throw_at (pattern d) (int k) \<longrightarrow>
                   fst (snd (resolve_ballId (balls d) st (int k)))
                     (int k + throw_at (pattern d) (int k)) = None))"
proof -
  note acc = parse_accepts(1,3) [OF assms]
  have 1: "\<exists>plan. buildSimulationPlan (pattern d) (balls d) loops = Inr plan"
    using run_beats_total [OF acc, of "balls d" "nat (totalBeats_of (pattern d) loops)"]
    by (auto simp: build_run_beats)
  have 2: "\<exists>st. run_beats (pattern d) (balls d) k = Inr st
              \<and> (0 < throw_at (pattern d) (int k) \<longrightarrow>
                   fst (snd (resolve_ballId (balls d) st (int k)))
                     (int k + throw_at (pattern d) (int k)) = None)" for k
  proof -
    from run_beats_total [OF acc, of "balls d" k] obtain st
      where st: "run_beats (pattern d) (balls d) k = Inr st" "pending_ok (pattern d) k st"
      by blast
    from plan_step_no_conflict [OF acc st(2), of "balls d"] st(1) show ?thesis by auto
  qed
  from 1 2 show ?thesis by blast
qed

theorem no_landing_conflict_witness:
  "\<exists>plan. buildSimulationPlan [5, 3, 1] 3 (Some 2) = Inr plan"
proof -
  have p: "parseSiteswap ''531'' = Inr \<lparr>pattern = [5, 3, 1], period = 3, balls = 3, maxThrow = 5\<rparr>"
    by code_simp
  from no_landing_conflict [OF p, of "Some 2"] show ?thesis by simp
qed

section \<open>Counting the balls in the air\<close>

lemma throw_at_nat: "pat \<noteq> [] \<Longrightarrow> throw_at pat (int b) = pat ! (b mod length pat)"
  by (simp add: throw_at_eq zmod_int [symmetric] del: of_nat_mod)

lemma throw_at_pos: "zero_free pat \<Longrightarrow> 0 < throw_at pat (int b)"
  by (simp add: zero_free_def throw_at_nat)

lemma land_gt: "zero_free pat \<Longrightarrow> b < land pat b"
  using throw_at_pos [of pat b] by (simp add: land_def)

lemma land_inj:
  assumes "zero_free pat" "slots_distinct pat" "land pat b = land pat c"
  shows "b = c"
proof -
  have ne: "pat \<noteq> []" using assms(1) by (simp add: zero_free_def)
  have "int (land pat b) = int (land pat c)" using assms(3) by simp
  then have "int b + throw_at pat (int b) = int c + throw_at pat (int c)"
    using throw_at_pos [OF assms(1), of b] throw_at_pos [OF assms(1), of c]
    by (simp add: land_def)
  then have "int b = int c"
    using landing_beat_inj [OF ne assms(2) _ _ throw_at_pos [OF assms(1)] throw_at_pos [OF assms(1)]]
    by simp
  then show ?thesis by simp
qed

lemma finite_air: "finite (air pat k)"
  by (simp add: air_def)

lemma air_Suc:
  assumes "zero_free pat"
  shows "air pat (Suc k) = insert k (air pat k - {b. land pat b = k})"
  using land_gt [OF assms, of k] by (auto simp: air_def less_Suc_eq)

lemma card_air_Suc:
  assumes "zero_free pat" "slots_distinct pat"
  shows "card (air pat (Suc k)) = card (air pat k) + (if \<exists>b<k. land pat b = k then 0 else 1)"
proof -
  have k: "k \<notin> air pat k - {b. land pat b = k}" by (simp add: air_def)
  have c: "card (air pat (Suc k)) = Suc (card (air pat k - {b. land pat b = k}))"
    unfolding air_Suc [OF assms(1)] using k finite_air [of pat k] by simp
  show ?thesis
  proof (cases "\<exists>b<k. land pat b = k")
    case True
    then obtain b0 where b0: "b0 < k" "land pat b0 = k" by blast
    have "{b. land pat b = k} = {b0}"
      using b0 land_inj [OF assms] by auto
    moreover have "b0 \<in> air pat k" using b0 by (simp add: air_def)
    ultimately have "card (air pat k - {b. land pat b = k}) = card (air pat k) - 1"
      and "0 < card (air pat k)"
      using finite_air [of pat k] by (auto simp: card_gt_0_iff)
    with c True show ?thesis by simp
  next
    case False
    then have "air pat k - {b. land pat b = k} = air pat k"
      by (auto simp: air_def)
    with c False show ?thesis by simp
  qed
qed

lemma card_air_mono:
  assumes "zero_free pat" "slots_distinct pat"
  shows "card (air pat k) \<le> card (air pat (k + m))"
proof (induction m)
  case 0
  show ?case by simp
next
  case (Suc m)
  have "card (air pat (k + m)) \<le> card (air pat (Suc (k + m)))"
    by (simp add: card_air_Suc [OF assms])
  with Suc show ?case by simp
qed

lemma air_flight_time:
  "(\<Sum>i<j. card (air pat (Suc i))) \<le> (\<Sum>b<j. land pat b - b)"
proof -
  have "card (air pat (Suc i)) = (\<Sum>b<j. if b \<le> i \<and> i < land pat b then 1 else 0)"
    if "i < j" for i
  proof -
    have "air pat (Suc i) = {b \<in> {..<j}. b \<le> i \<and> i < land pat b}"
      using that by (auto simp: air_def)
    then show ?thesis
      by (simp only: card_eq_sum sum.inter_filter [OF finite_lessThan])
  qed
  then have "(\<Sum>i<j. card (air pat (Suc i)))
               = (\<Sum>i<j. \<Sum>b<j. if b \<le> i \<and> i < land pat b then 1 else 0)"
    by simp
  also have "\<dots> = (\<Sum>b<j. \<Sum>i<j. if b \<le> i \<and> i < land pat b then 1 else 0)"
    by (rule sum.swap)
  also have "\<dots> \<le> (\<Sum>b<j. land pat b - b)"
  proof (rule sum_mono)
    fix b
    have "(\<Sum>i<j. if b \<le> i \<and> i < land pat b then 1 else 0)
            = card {i \<in> {..<j}. b \<le> i \<and> i < land pat b}"
      by (simp only: card_eq_sum sum.inter_filter [OF finite_lessThan])
    also have "\<dots> \<le> card {b..<land pat b}"
      by (rule card_mono) auto
    finally show "(\<Sum>i<j. if b \<le> i \<and> i < land pat b then 1 else 0) \<le> land pat b - b"
      by simp
  qed
  finally show ?thesis .
qed

lemma periodic_sum:
  fixes g :: "nat \<Rightarrow> nat"
  assumes "0 < L"
  shows "(\<Sum>b<m * L. g (b mod L)) = m * (\<Sum>i<L. g i)"
proof -
  have "(\<Sum>b<m * L. g (b mod L)) = (\<Sum>q<m. \<Sum>b = q * L..<q * L + L. g (b mod L))"
    by (rule sum.nat_group [symmetric])
  also have "\<dots> = (\<Sum>q<m. \<Sum>i<L. g i)"
  proof (rule sum.cong [OF refl])
    fix q
    have "(\<Sum>b = q * L..<q * L + L. g (b mod L)) = (\<Sum>b = 0 + q * L..<L + q * L. g (b mod L))"
      by (simp add: add.commute)
    also have "\<dots> = (\<Sum>i = 0..<L. g ((i + q * L) mod L))"
      by (rule sum.shift_bounds_nat_ivl)
    also have "\<dots> = (\<Sum>i<L. g i)"
      by (simp add: atLeast0LessThan)
    finally show "(\<Sum>b = q * L..<q * L + L. g (b mod L)) = (\<Sum>i<L. g i)" .
  qed
  also have "\<dots> = m * (\<Sum>i<L. g i)" by simp
  finally show ?thesis .
qed

lemma flight_time_period:
  assumes "zero_free pat"
  shows "(\<Sum>b<m * length pat. land pat b - b) = m * nat (sum_list pat)"
proof -
  have ne: "pat \<noteq> []" and pos: "\<forall>v \<in> set pat. 0 < v" using assms by (simp_all add: zero_free_def)
  have L: "0 < length pat" using ne by simp
  have "land pat b - b = nat (pat ! (b mod length pat))" for b
    by (simp add: land_def throw_at_nat [OF ne])
  then have "(\<Sum>b<m * length pat. land pat b - b) = (\<Sum>b<m * length pat. nat (pat ! (b mod length pat)))"
    by simp
  also have "\<dots> = m * (\<Sum>i<length pat. nat (pat ! i))"
    by (rule periodic_sum [OF L])
  also have "(\<Sum>i<length pat. nat (pat ! i)) = nat (sum_list pat)"
  proof -
    have "int (\<Sum>i<length pat. nat (pat ! i)) = (\<Sum>i<length pat. pat ! i)"
      using pos by (simp add: order_less_imp_le)
    also have "\<dots> = sum_list pat"
      by (simp add: sum_list_sum_nth atLeast0LessThan)
    finally have "nat (int (\<Sum>i<length pat. nat (pat ! i))) = nat (sum_list pat)"
      by (simp only:)
    then show ?thesis by (simp only: nat_int)
  qed
  finally show ?thesis .
qed

lemma card_air_le:
  assumes "zero_free pat" "slots_distinct pat" "sum_list pat = int n * int (length pat)"
  shows "card (air pat k) \<le> n"
proof (rule ccontr)
  assume "\<not> card (air pat k) \<le> n"
  then have big: "Suc n \<le> card (air pat k)" by simp
  let ?L = "length pat"
  have L: "0 < ?L" using assms(1) by (simp add: zero_free_def)
  define m where "m = Suc (k * Suc n)"
  define j where "j = m * ?L"
  have mj: "m \<le> j" using L by (cases pat) (simp_all add: j_def)
  have kj: "k \<le> j" using mj by (simp add: m_def)
  have low: "Suc n \<le> card (air pat (Suc i))" if "k \<le> i" for i
    using big card_air_mono [OF assms(1,2), of k "Suc i - k"] that by simp
  have "(j - k) * Suc n = (\<Sum>i\<in>{k..<j}. Suc n)" by simp
  also have "\<dots> \<le> (\<Sum>i\<in>{k..<j}. card (air pat (Suc i)))"
    by (rule sum_mono) (simp add: low)
  also have "\<dots> \<le> (\<Sum>i<j. card (air pat (Suc i)))"
    by (rule sum_mono2) auto
  also have "\<dots> \<le> (\<Sum>b<j. land pat b - b)" by (rule air_flight_time)
  also have "\<dots> = m * nat (sum_list pat)"
    unfolding j_def by (rule flight_time_period [OF assms(1)])
  also have "\<dots> = j * n"
    by (simp add: assms(3) j_def nat_mult_distrib)
  finally have "(j - k) * Suc n \<le> j * n" .
  then have "j * Suc n \<le> j * n + k * Suc n"
    using kj by (simp add: diff_mult_distrib)
  then have "j \<le> k * Suc n" by simp
  with mj show False by (simp add: m_def)
qed

section \<open>The fallback identifier\<close>

lemma plan_step_intro_ok:
  assumes zf: "zero_free pat" and sd: "slots_distinct pat"
    and inv: "intro_ok pat k st" and step: "plan_step pat n st (int k) = Inr st'"
  shows "intro_ok pat (Suc k) st'"
proof -
  obtain bid ca nid where r: "resolve_ballId n st (int k) = (bid, ca, nid)"
    by (cases "resolve_ballId n st (int k)") auto
  have pos: "0 < throw_at pat (int k)" using zf by (rule throw_at_pos)
  have lk: "int (land pat k) = int k + throw_at pat (int k)"
    using pos by (simp add: land_def)
  from step r pos have st': "catchAssignments st' = ca(int (land pat k) \<mapsto> bid)"
    "nextBallId st' = nid"
    by (auto simp: plan_step_def Let_def lk split: if_splits)
  have keep: "ca j \<noteq> None" if "catchAssignments st j \<noteq> None" "j \<noteq> int k" for j
    using r that by (auto simp: resolve_ballId_def split: id_source.splits)
  have 1: "catchAssignments st' (int (land pat b)) \<noteq> None" if "b < Suc k" "Suc k \<le> land pat b" for b
  proof (cases "b = k")
    case True
    then show ?thesis by (simp add: st')
  next
    case False
    with that have "b < k" "k \<le> land pat b" "int (land pat b) \<noteq> int k" by simp_all
    with inv have "catchAssignments st (int (land pat b)) \<noteq> None"
      unfolding intro_ok_def by blast
    from keep [OF this \<open>int (land pat b) \<noteq> int k\<close>] show ?thesis by (simp add: st')
  qed
  have 2: "nid \<le> int (card (air pat (Suc k)))"
  proof (cases "id_source_at n st (int k) = Introduced")
    case True
    then have none: "catchAssignments st (int k) = None"
      by (auto simp: id_source_at_def split: if_splits)
    have "\<not> (\<exists>b<k. land pat b = k)"
    proof
      assume "\<exists>b<k. land pat b = k"
      then obtain b where "b < k" "land pat b = k" by blast
      with inv have "catchAssignments st (int k) \<noteq> None"
        unfolding intro_ok_def by (metis order_refl)
      with none show False by simp
    qed
    then have "card (air pat (Suc k)) = card (air pat k) + 1"
      by (simp add: card_air_Suc [OF zf sd])
    moreover have "nid = nextBallId st + 1"
      using r True by (simp add: resolve_ballId_def)
    ultimately show ?thesis using inv by (simp add: intro_ok_def)
  next
    case False
    then have "nid = nextBallId st"
      using r by (auto simp: resolve_ballId_def split: id_source.splits)
    moreover have "card (air pat k) \<le> card (air pat (Suc k))"
      by (simp add: card_air_Suc [OF zf sd])
    ultimately show ?thesis using inv by (simp add: intro_ok_def)
  qed
  from 1 2 show ?thesis by (simp add: intro_ok_def st')
qed

lemma run_beats_intro_ok:
  assumes "zero_free pat" "slots_distinct pat"
  shows "run_beats pat n k = Inr st \<Longrightarrow> intro_ok pat k st"
proof (induction k arbitrary: st)
  case 0
  then show ?case by (auto simp: initial_state_def intro_ok_def)
next
  case (Suc k)
  from Suc.prems obtain st0
    where r: "run_beats pat n k = Inr st0" and s: "plan_step pat n st0 (int k) = Inr st"
    by (rule run_beats_Suc_Inr)
  from plan_step_intro_ok [OF assms Suc.IH [OF r] s] show ?case .
qed

lemma no_fallback:
  assumes zf: "zero_free pat" and sd: "slots_distinct pat"
    and sum: "sum_list pat = n * int (length pat)" and n: "0 \<le> n"
    and run: "run_beats pat n k = Inr st"
  shows "id_source_at n st (int k) \<noteq> Fallback"
proof
  assume "id_source_at n st (int k) = Fallback"
  then have none: "catchAssignments st (int k) = None" and full: "n \<le> nextBallId st"
    by (auto simp: id_source_at_def split: if_splits)
  note inv = run_beats_intro_ok [OF zf sd run]
  have "\<not> (\<exists>b<k. land pat b = k)"
  proof
    assume "\<exists>b<k. land pat b = k"
    then obtain b where "b < k" "land pat b = k" by blast
    with inv have "catchAssignments st (int k) \<noteq> None"
      unfolding intro_ok_def by (metis order_refl)
    with none show False by simp
  qed
  then have "card (air pat (Suc k)) = card (air pat k) + 1"
    by (simp add: card_air_Suc [OF zf sd])
  moreover have "card (air pat (Suc k)) \<le> nat n"
    using sum n by (intro card_air_le [OF zf sd]) simp
  ultimately have "int (card (air pat k)) < n" by linarith
  with inv full show False by (simp add: intro_ok_def)
qed


text \<open>
  C2, as stated: for an accepted pattern the fallback \<open>beat % balls\<close> runs only at beats
  of height zero and never names the ball of an emitted flight. It does: \<open>"40"\<close> is
  accepted with two balls; beat 1 has height zero and introduces identifier 1 without a
  throw, so at beat 2, of height 4, nothing is pending and both identifiers are used up;
  the fallback runs there and the flight starting at beat 2 carries \<open>2 % 2\<close>.
\<close>

theorem fallback_counterexample:
  "parseSiteswap ''40'' = Inr \<lparr>pattern = [4, 0], period = 2, balls = 2, maxThrow = 4\<rparr>
   \<and> \<not> isl (run_beats [4, 0] 2 2)
   \<and> id_source_at 2 (projr (run_beats [4, 0] 2 2)) 2 = Fallback
   \<and> [4, 0 :: int] ! nat (2 mod 2) = 4
   \<and> buildSimulationPlan [4, 0] 2 (Some 2) =
        Inr \<lparr>flights = [emitted [4, 0] (Num 0) 0, emitted [4, 0] (js_rem_num 2 2) 2], beats = 4\<rparr>"
  by code_simp


text \<open>
  C2, amended: for every accepted pattern none of whose heights is zero, planned with its
  derived ball count, the loop reaches every beat and the fallback is not the branch that
  runs there; so it is never the identity source of an emitted flight.
\<close>

theorem fallback_unused_without_zeros:
  assumes "parseSiteswap rawInput = Inr d" and "0 \<notin> set (pattern d)"
  shows "\<exists>st. run_beats (pattern d) (balls d) k = Inr st
             \<and> id_source_at (balls d) st (int k) \<noteq> Fallback"
proof -
  note acc = parse_accepts [OF assms(1)]
  have zf: "zero_free (pattern d)"
    unfolding zero_free_def using acc(1,2) assms(2) by (metis order_le_less)
  from run_beats_total [OF acc(1,3), of "balls d" k] obtain st
    where st: "run_beats (pattern d) (balls d) k = Inr st" by blast
  have "0 \<le> balls d" using acc(5) by simp
  from no_fallback [OF zf acc(3,4) this st] st show ?thesis by blast
qed

theorem fallback_unused_without_zeros_witness:
  "\<exists>st. run_beats [5, 3, 1] 3 4 = Inr st \<and> id_source_at 3 st (int 4) \<noteq> Fallback"
proof -
  have p: "parseSiteswap ''531'' = Inr \<lparr>pattern = [5, 3, 1], period = 3, balls = 3, maxThrow = 5\<rparr>"
    by code_simp
  have z: "0 \<notin> set (pattern \<lparr>pattern = [5, 3, 1], period = 3, balls = 3, maxThrow = 5\<rparr>)"
    by simp
  from fallback_unused_without_zeros [OF p z, of 4] show ?thesis by simp
qed


end
